theory Spec2Isabelle
  imports Complex_Main "HOL-Library.Sublist"
begin

section \<open>Values decoded from JSON\<close>

text \<open>
  Every value the client inspects comes out of \<^verbatim>\<open>json.loads\<close>, \<^verbatim>\<open>json.load\<close> or
  \<^verbatim>\<open>response.json()\<close>. A Python \<^verbatim>\<open>dict\<close> is an association list in insertion order
  (its keys are strings and pairwise different, as the decoder produces them); numbers are
  Python's unbounded integers. Non-integer numbers do not occur in any field the client
  reads and are left out of the model.
\<close>

datatype json =
    JNull
  | JBool bool
  | JInt int
  | JStr string
  | JArr "json list"
  | JObj "(string \<times> json) list"

text \<open>The exceptions the two source files can raise or let through.\<close>

datatype error =
    KeyError
  | TypeError
  | AttributeError
  | ValueError
  | JSONDecodeError
  | TimeoutError
  | WebSocketError
  | RequestError
  | HTTPError
  | FileNotFoundError
  | OSError

text \<open>\<^verbatim>\<open>v[k]\<close> with a string key: only a dict supports it; a missing key is a KeyError.\<close>

fun getitem :: "json \<Rightarrow> string \<Rightarrow> error + json" where
  "getitem (JObj kvs) k = (case map_of kvs k of None \<Rightarrow> Inl KeyError | Some v \<Rightarrow> Inr v)"
| "getitem _ k = Inl TypeError"

text \<open>\<^verbatim>\<open>v.get(k, default)\<close>: the method exists on a dict only.\<close>

fun py_get :: "json \<Rightarrow> string \<Rightarrow> json \<Rightarrow> error + json" where
  "py_get (JObj kvs) k dflt = (case map_of kvs k of None \<Rightarrow> Inr dflt | Some v \<Rightarrow> Inr v)"
| "py_get _ k dflt = Inl AttributeError"

text \<open>
  \<^verbatim>\<open>k in v\<close> with a string \<open>k\<close>: key membership on a dict, element membership on a list,
  substring test on a string, TypeError on anything else.
\<close>

fun contains :: "string \<Rightarrow> json \<Rightarrow> error + bool" where
  "contains k (JObj kvs) = Inr (k \<in> set (map fst kvs))"
| "contains k (JArr xs) = Inr (JStr k \<in> set xs)"
| "contains k (JStr s) = Inr (sublist k s)"
| "contains k _ = Inl TypeError"

text \<open>\<^verbatim>\<open>for x in v\<close>: elements of a list, keys of a dict, characters of a string.\<close>

fun py_iter :: "json \<Rightarrow> error + json list" where
  "py_iter (JArr xs) = Inr xs"
| "py_iter (JObj kvs) = Inr (map (\<lambda>kv. JStr (fst kv)) kvs)"
| "py_iter (JStr s) = Inr (map (\<lambda>c. JStr [c]) s)"
| "py_iter _ = Inl TypeError"

text \<open>Truthiness, as \<^verbatim>\<open>if v:\<close> tests it.\<close>

fun truthy :: "json \<Rightarrow> bool" where
  "truthy JNull = False"
| "truthy (JBool b) = b"
| "truthy (JInt i) = (i \<noteq> 0)"
| "truthy (JStr s) = (s \<noteq> [])"
| "truthy (JArr xs) = (xs \<noteq> [])"
| "truthy (JObj kvs) = (kvs \<noteq> [])"

text \<open>
  Keys of the dict \<^verbatim>\<open>output_images\<close> are whatever \<^verbatim>\<open>data['node']\<close> is. Lists and dicts
  are unhashable; \<^verbatim>\<open>True\<close> and \<^verbatim>\<open>1\<close> (and \<^verbatim>\<open>False\<close> and \<^verbatim>\<open>0\<close>) are the same key.
\<close>

fun hashable :: "json \<Rightarrow> bool" where
  "hashable (JArr xs) = False"
| "hashable (JObj kvs) = False"
| "hashable _ = True"

fun key_norm :: "json \<Rightarrow> json" where
  "key_norm (JBool b) = JInt (if b then 1 else 0)"
| "key_norm v = v"

definition key_eq :: "json \<Rightarrow> json \<Rightarrow> bool" where
  "key_eq a b = (key_norm a = key_norm b)"

type_synonym pydict = "(json \<times> json) list"

text \<open>\<^verbatim>\<open>d[k] = v\<close>: an existing entry keeps its place and its key object, a new one goes last.\<close>

fun dict_set :: "pydict \<Rightarrow> json \<Rightarrow> json \<Rightarrow> pydict" where
  "dict_set [] k v = [(k, v)]"
| "dict_set ((k', v') # d) k v =
     (if key_eq k' k then (k', v) # d else (k', v') # dict_set d k v)"

fun dict_lookup :: "pydict \<Rightarrow> json \<Rightarrow> json option" where
  "dict_lookup [] k = None"
| "dict_lookup ((k', v') # d) k = (if key_eq k' k then Some v' else dict_lookup d k)"

text \<open>
  A printed line is a sequence of literal pieces and of values interpolated by an f-string.
  \<^verbatim>\<open>str\<close> of a string is the string itself; for the other values it is Python's
  \<^verbatim>\<open>repr\<close>, which is taken as a parameter where a line is rendered.
\<close>

datatype frag = Lit string | Val json

type_synonym line = "frag list"

fun render_frag :: "(json \<Rightarrow> string) \<Rightarrow> frag \<Rightarrow> string" where
  "render_frag repr (Lit s) = s"
| "render_frag repr (Val (JStr s)) = s"
| "render_frag repr (Val v) = repr v"

definition render :: "(json \<Rightarrow> string) \<Rightarrow> line \<Rightarrow> string" where
  "render repr l = concat (map (render_frag repr) l)"

section \<open>Waiting for completion\<close>

text \<open>
  \<^verbatim>\<open>self.ws.recv()\<close> returns a \<^verbatim>\<open>str\<close> for a text frame and \<^verbatim>\<open>bytes\<close> for a binary
  one, or raises. A text frame carries what \<^verbatim>\<open>json.loads\<close> makes of it: a value, or
  nothing when the text is not JSON (\<^verbatim>\<open>json.loads\<close> then raises). When \<^verbatim>\<open>recv\<close>
  raises, either the peer is gone and the websocket library has shut the socket down
  itself by the time the exception reaches the caller (\<open>Recv_raises True\<close>), or the
  connection is still up (\<open>Recv_raises False\<close>).
\<close>

datatype frame = Text "json option" | Binary

datatype recv_result = Recv frame | Recv_raises bool

text \<open>The local variables of the loop: the lines printed so far and \<^verbatim>\<open>output_images\<close>.\<close>

type_synonym loop_vars = "line list \<times> pydict"

datatype flow = Next loop_vars | Break_loop | Raise error

text \<open>The \<^verbatim>\<open>for image in ...\<close> loop of the \<^verbatim>\<open>executed\<close> branch.\<close>

fun store_images :: "json \<Rightarrow> json list \<Rightarrow> pydict \<Rightarrow> error + pydict" where
  "store_images data [] d = Inr d"
| "store_images data (img # rest) d =
     (case getitem data ''node'' of
        Inl e \<Rightarrow> Inl e
      | Inr n \<Rightarrow> if hashable n then store_images data rest (dict_set d n img)
                 else Inl TypeError)"

definition on_executing :: "string \<Rightarrow> json \<Rightarrow> loop_vars \<Rightarrow> flow" where
  "on_executing prompt_id message vs =
     (case getitem message ''data'' of
        Inl e \<Rightarrow> Raise e
      | Inr data \<Rightarrow>
          (case getitem data ''node'' of
             Inl e \<Rightarrow> Raise e
           | Inr node \<Rightarrow>
               if node = JNull then
                 (case getitem data ''prompt_id'' of
                    Inl e \<Rightarrow> Raise e
                  | Inr p \<Rightarrow> if p = JStr prompt_id then Break_loop else Next vs)
               else Next vs))"

definition on_progress :: "json \<Rightarrow> loop_vars \<Rightarrow> flow" where
  "on_progress message vs =
     (case getitem message ''data'' of
        Inl e \<Rightarrow> Raise e
      | Inr data \<Rightarrow>
          (case getitem data ''value'' of
             Inl e \<Rightarrow> Raise e
           | Inr v \<Rightarrow>
               (case getitem data ''max'' of
                  Inl e \<Rightarrow> Raise e
                | Inr m \<Rightarrow>
                    (case py_get data ''type'' (JStr '''') of
                       Inl e \<Rightarrow> Raise e
                     | Inr t \<Rightarrow>
                         Next (fst vs @ [[Lit ''Progress: '', Val v, Lit ''/'', Val m,
                                          Lit '' - '', Val t]], snd vs)))))"

definition on_executed :: "json \<Rightarrow> loop_vars \<Rightarrow> flow" where
  "on_executed message vs =
     (case getitem message ''data'' of
        Inl e \<Rightarrow> Raise e
      | Inr data \<Rightarrow>
          (case contains ''output'' data of
             Inl e \<Rightarrow> Raise e
           | Inr False \<Rightarrow> Next vs
           | Inr True \<Rightarrow>
               (case getitem data ''output'' of
                  Inl e \<Rightarrow> Raise e
                | Inr out \<Rightarrow>
                    (case contains ''images'' out of
                       Inl e \<Rightarrow> Raise e
                     | Inr False \<Rightarrow> Next vs
                     | Inr True \<Rightarrow>
                         (case getitem out ''images'' of
                            Inl e \<Rightarrow> Raise e
                          | Inr imgs \<Rightarrow>
                              (case py_iter imgs of
                                 Inl e \<Rightarrow> Raise e
                               | Inr xs \<Rightarrow>
                                   (case store_images data xs (snd vs) of
                                      Inl e \<Rightarrow> Raise e
                                    | Inr d \<Rightarrow> Next (fst vs, d))))))))"

text \<open>The body of the loop for a decoded text message: the \<^verbatim>\<open>if/elif\<close> chain on its type.\<close>

definition process_message :: "string \<Rightarrow> json \<Rightarrow> loop_vars \<Rightarrow> flow" where
  "process_message prompt_id message vs =
     (case getitem message ''type'' of
        Inl e \<Rightarrow> Raise e
      | Inr ty \<Rightarrow>
          if ty = JStr ''executing'' then on_executing prompt_id message vs
          else if ty = JStr ''progress'' then on_progress message vs
          else if ty = JStr ''executed'' then on_executed message vs
          else Next vs)"

definition handle_frame :: "string \<Rightarrow> frame \<Rightarrow> loop_vars \<Rightarrow> flow" where
  "handle_frame prompt_id fr vs =
     (case fr of
        Binary \<Rightarrow> Next vs
      | Text None \<Rightarrow> Raise JSONDecodeError
      | Text (Some message) \<Rightarrow> process_message prompt_id message vs)"

text \<open>
  The state of one call. \<open>conn_open\<close>: the connection made by \<^verbatim>\<open>create_connection\<close> is
  open; \<open>self_ws\<close>: \<^verbatim>\<open>self.ws\<close> holds it; \<open>clock_reads\<close>: how many times
  \<^verbatim>\<open>time.time()\<close> has been called; \<open>received\<close>: how many times \<^verbatim>\<open>recv\<close> has returned
  or raised; \<open>vars\<close>: the loop's variables.
\<close>

record wait_state =
  conn_open :: bool
  self_ws :: bool
  clock_reads :: nat
  received :: nat
  vars :: loop_vars

datatype loop_exit = Broke | Deadline | Raised error | Blocked

text \<open>
  The \<^verbatim>\<open>while\<close> loop. The clock is the sequence of readings \<^verbatim>\<open>time.time()\<close> gives, in an
  arbitrary but fixed unit, shared with \<open>timeout\<close>; the inbox is what the successive calls
  of \<^verbatim>\<open>recv\<close> produce. When the inbox is used up, \<^verbatim>\<open>recv\<close> never returns: the connection
  is made without a socket timeout.
\<close>

fun wait_loop ::
  "(nat \<Rightarrow> real) \<Rightarrow> string \<Rightarrow> real \<Rightarrow> real \<Rightarrow> recv_result list \<Rightarrow> wait_state
     \<Rightarrow> loop_exit \<times> wait_state" where
  "wait_loop clock prompt_id timeout start_time [] st =
     (if clock (clock_reads st) - start_time < timeout
      then (Blocked, st\<lparr>clock_reads := Suc (clock_reads st)\<rparr>)
      else (Deadline, st\<lparr>clock_reads := Suc (clock_reads st)\<rparr>))"
| "wait_loop clock prompt_id timeout start_time (r # inbox) st =
     (if clock (clock_reads st) - start_time < timeout
      then
        (let st1 = st\<lparr>clock_reads := Suc (clock_reads st), received := Suc (received st)\<rparr>
         in case r of
              Recv_raises lost \<Rightarrow>
                (Raised WebSocketError, st1\<lparr>conn_open := conn_open st1 \<and> \<not> lost\<rparr>)
            | Recv fr \<Rightarrow>
                (case handle_frame prompt_id fr (vars st1) of
                   Raise e \<Rightarrow> (Raised e, st1)
                 | Break_loop \<Rightarrow> (Broke, st1)
                 | Next vs \<Rightarrow>
                     wait_loop clock prompt_id timeout start_time inbox (st1\<lparr>vars := vs\<rparr>)))
      else (Deadline, st\<lparr>clock_reads := Suc (clock_reads st)\<rparr>))"

datatype 'a outcome = Returns 'a | Raises error | Blocks

text \<open>
  What follows the loop: close the connection, clear \<^verbatim>\<open>self.ws\<close>, read the clock once
  more, and raise TimeoutError or return \<^verbatim>\<open>output_images\<close>. An exception from inside
  the loop skips all of it.
\<close>

definition after_loop ::
  "(nat \<Rightarrow> real) \<Rightarrow> real \<Rightarrow> real \<Rightarrow> loop_exit \<times> wait_state
     \<Rightarrow> pydict outcome \<times> wait_state" where
  "after_loop clock timeout start_time r =
     (case r of
        (Raised e, st) \<Rightarrow> (Raises e, st)
      | (Blocked, st) \<Rightarrow> (Blocks, st)
      | (ex, st) \<Rightarrow>
          (let st1 = st\<lparr>conn_open := False, self_ws := False,
                         clock_reads := Suc (clock_reads st)\<rparr>
           in if clock (clock_reads st) - start_time \<ge> timeout
              then (Raises TimeoutError, st1)
              else (Returns (snd (vars st1)), st1)))"

text \<open>
  \<^verbatim>\<open>wait_for_completion\<close>. \<open>connect_ok\<close> says whether \<^verbatim>\<open>create_connection\<close> succeeds;
  when it does not (the server refuses the connection: an OSError) nothing has been
  opened. \<open>out0\<close> is what has been printed before the call.
\<close>

definition wait_for_completion ::
  "bool \<Rightarrow> (nat \<Rightarrow> real) \<Rightarrow> recv_result list \<Rightarrow> line list \<Rightarrow> string \<Rightarrow> real
     \<Rightarrow> pydict outcome \<times> wait_state" where
  "wait_for_completion connect_ok clock inbox out0 prompt_id timeout =
     (if \<not> connect_ok
      then (Raises OSError,
            \<lparr>conn_open = False, self_ws = False, clock_reads = 0, received = 0,
             vars = (out0, [])\<rparr>)
      else
        (let start_time = clock 0;
             st = \<lparr>conn_open = True, self_ws = True, clock_reads = 1, received = 0,
                   vars = (out0, [])\<rparr>
         in after_loop clock timeout start_time
              (wait_loop clock prompt_id timeout start_time inbox st)))"

subsection \<open>The notification messages\<close>

text \<open>
  The messages the remote service sends on the notification channel, used as inputs below:
  \<^verbatim>\<open>{"type": "executing", "data": {"node": ..., "prompt_id": ...}}\<close>,
  \<^verbatim>\<open>{"type": "progress", "data": {"value": ..., "max": ...}}\<close> and
  \<^verbatim>\<open>{"type": "executed", "data": {"node": ..., "output": {"images": [...]}}}\<close>.
\<close>

definition executing_event :: "json \<Rightarrow> string \<Rightarrow> recv_result" where
  "executing_event node pid =
     Recv (Text (Some (JObj [(''type'', JStr ''executing''),
                             (''data'', JObj [(''node'', node), (''prompt_id'', JStr pid)])])))"

definition progress_event :: "int \<Rightarrow> int \<Rightarrow> recv_result" where
  "progress_event v m =
     Recv (Text (Some (JObj [(''type'', JStr ''progress''),
                             (''data'', JObj [(''value'', JInt v), (''max'', JInt m)])])))"

definition executed_event :: "json \<Rightarrow> json list \<Rightarrow> recv_result" where
  "executed_event node imgs =
     Recv (Text (Some (JObj [(''type'', JStr ''executed''),
                             (''data'', JObj [(''node'', node),
                                              (''output'', JObj [(''images'', JArr imgs)])])])))"

definition image_ref :: "string \<Rightarrow> json" where
  "image_ref name =
     JObj [(''filename'', JStr name), (''subfolder'', JStr ''''), (''type'', JStr ''output'')]"

text \<open>
  The completion signal in the words of the specification: a text message whose type is
  \<^verbatim>\<open>executing\<close> and whose data has a null node and the waited-for job identifier.
\<close>

definition spec_completion_signal :: "string \<Rightarrow> recv_result \<Rightarrow> bool" where
  "spec_completion_signal pid r =
     (case r of
        Recv (Text (Some (JObj m))) \<Rightarrow>
          map_of m ''type'' = Some (JStr ''executing'') \<and>
          (case map_of m ''data'' of
             Some (JObj d) \<Rightarrow>
               map_of d ''node'' = Some JNull \<and> map_of d ''prompt_id'' = Some (JStr pid)
           | _ \<Rightarrow> False)
      | _ \<Rightarrow> False)"

text \<open>
  An \<^verbatim>\<open>executed\<close> event that carries image output, in the words of the specification:
  its node and its images, when there is at least one image.
\<close>

definition spec_executed_images :: "recv_result \<Rightarrow> (json \<times> json list) option" where
  "spec_executed_images r =
     (case r of
        Recv (Text (Some msg)) \<Rightarrow>
          (if getitem msg ''type'' = Inr (JStr ''executed'') then
             (case getitem msg ''data'' of
                Inr data \<Rightarrow>
                  (case (getitem data ''node'', getitem data ''output'') of
                     (Inr n, Inr out) \<Rightarrow>
                       (case getitem out ''images'' of
                          Inr imgs \<Rightarrow>
                            (case py_iter imgs of
                               Inr (x # xs) \<Rightarrow> Some (n, x # xs)
                             | _ \<Rightarrow> None)
                        | _ \<Rightarrow> None)
                   | _ \<Rightarrow> None)
              | _ \<Rightarrow> None)
           else None)
      | _ \<Rightarrow> None)"

text \<open>The last image of the last image-carrying \<^verbatim>\<open>executed\<close> event for node \<open>k\<close>.\<close>

fun spec_last_image :: "json \<Rightarrow> recv_result list \<Rightarrow> json option" where
  "spec_last_image k [] = None"
| "spec_last_image k (r # rs) =
     (case spec_last_image k rs of
        Some v \<Rightarrow> Some v
      | None \<Rightarrow>
          (case spec_executed_images r of
             Some (n, xs) \<Rightarrow> if key_eq n k then Some (last xs) else None
           | None \<Rightarrow> None))"

text \<open>The first image of the first image-carrying \<^verbatim>\<open>executed\<close> event for node \<open>k\<close>.\<close>

fun spec_first_image :: "json \<Rightarrow> recv_result list \<Rightarrow> json option" where
  "spec_first_image k [] = None"
| "spec_first_image k (r # rs) =
     (case spec_executed_images r of
        Some (n, xs) \<Rightarrow> if key_eq n k then Some (hd xs) else spec_first_image k rs
      | None \<Rightarrow> spec_first_image k rs)"

text \<open>The state in which \<^verbatim>\<open>wait_for_completion\<close> enters its loop.\<close>

definition loop_entry :: "line list \<Rightarrow> wait_state" where
  "loop_entry out0 =
     \<lparr>conn_open = True, self_ws = True, clock_reads = 1, received = 0, vars = (out0, [])\<rparr>"

text \<open>A run of the channel used as a concrete input: seven frames, the sixth completes.\<close>

definition example_inbox :: "recv_result list" where
  "example_inbox =
     [progress_event 1 10,
      executed_event (JStr ''9'') [image_ref ''a.png'', image_ref ''b.png''],
      Recv Binary,
      executing_event (JStr ''5'') ''job'',
      executing_event JNull ''other'',
      executing_event JNull ''job'',
      progress_event 2 10]"

text \<open>A run in which node 9 reports images twice before the job completes.\<close>

definition example_two_events :: "recv_result list" where
  "example_two_events =
     [executed_event (JStr ''9'') [image_ref ''a.png'', image_ref ''b.png''],
      executed_event (JStr ''9'') [image_ref ''c.png''],
      executing_event JNull ''job'']"

text \<open>
  Two properties of a frame, for use in statements about whole runs. A frame passes when
  receiving it succeeds and processing it lets the loop go on to its next turn, whatever has
  been collected so far; it fails with \<open>e\<close> when processing it raises \<open>e\<close>.
\<close>

abbreviation passes :: "string \<Rightarrow> recv_result \<Rightarrow> bool" where
  "passes pid r \<equiv> \<exists>fr. r = Recv fr \<and> (\<forall>vs. \<exists>vs'. handle_frame pid fr vs = Next vs')"



text \<open>A run in which the completion signal is the next frame after one progress message.\<close>

definition example_late_completion :: "recv_result list" where
  "example_late_completion = [progress_event 1 10, executing_event JNull ''job'']"

section \<open>Patching the job definition\<close>

text \<open>
  The workflow is what \<^verbatim>\<open>json.load\<close> returned. The helpers change it in place and return
  it; the model returns the changed value, or the exception. A decoded document is a tree,
  so no node is reachable under two keys and the in-place update of one node's inputs is
  the update of the whole document at that path. A helper's result is the lines it printed
  and what it returned or raised.
\<close>

type_synonym patch_result = "line list \<times> (error + json)"

text \<open>\<^verbatim>\<open>d[k] = v\<close> on a decoded dict: a present key keeps its place, a new key goes last.\<close>

fun dict_put :: "(string \<times> json) list \<Rightarrow> string \<Rightarrow> json \<Rightarrow> (string \<times> json) list" where
  "dict_put [] k v = [(k, v)]"
| "dict_put ((k', v') # kvs) k v =
     (if k' = k then (k', v) # kvs else (k', v') # dict_put kvs k v)"

fun setitem :: "json \<Rightarrow> string \<Rightarrow> json \<Rightarrow> error + json" where
  "setitem (JObj kvs) k v = Inr (JObj (dict_put kvs k v))"
| "setitem _ k v = Inl TypeError"

text \<open>\<^verbatim>\<open>workflow[node_id]["inputs"][field] = value\<close>.\<close>

definition assign_input :: "json \<Rightarrow> string \<Rightarrow> string \<Rightarrow> json \<Rightarrow> error + json" where
  "assign_input workflow node_id field v =
     (case getitem workflow node_id of
        Inl e \<Rightarrow> Inl e
      | Inr node \<Rightarrow>
          (case getitem node ''inputs'' of
             Inl e \<Rightarrow> Inl e
           | Inr inputs \<Rightarrow>
               (case setitem inputs field v of
                  Inl e \<Rightarrow> Inl e
                | Inr inputs' \<Rightarrow>
                    (case setitem node ''inputs'' inputs' of
                       Inl e \<Rightarrow> Inl e
                     | Inr node' \<Rightarrow> setitem workflow node_id node'))))"

text \<open>
  \<^verbatim>\<open>"inputs" in workflow[node_id] and field in workflow[node_id]["inputs"]\<close>, the guard of
  the LoRA and seed helpers.
\<close>

definition has_input :: "json \<Rightarrow> string \<Rightarrow> string \<Rightarrow> error + bool" where
  "has_input workflow node_id field =
     (case getitem workflow node_id of
        Inl e \<Rightarrow> Inl e
      | Inr node \<Rightarrow>
          (case contains ''inputs'' node of
             Inl e \<Rightarrow> Inl e
           | Inr False \<Rightarrow> Inr False
           | Inr True \<Rightarrow>
               (case getitem node ''inputs'' of
                  Inl e \<Rightarrow> Inl e
                | Inr inputs \<Rightarrow> contains field inputs)))"

text \<open>\<^verbatim>\<open>os.path.basename\<close> on POSIX: what follows the last slash.\<close>

definition basename :: "string \<Rightarrow> string" where
  "basename p = rev (takeWhile (\<lambda>c. c \<noteq> CHR ''/'') (rev p))"

text \<open>Truthiness of an optional string argument: neither \<^verbatim>\<open>None\<close> nor empty.\<close>

fun given :: "string option \<Rightarrow> bool" where
  "given None = False"
| "given (Some s) = (s \<noteq> [])"

text \<open>
  A client is \<^verbatim>\<open>None\<close> or a \<^verbatim>\<open>ComfyUIClient\<close>, which is always truthy. Of the client the
  helpers use \<^verbatim>\<open>upload_image(path)['filename']\<close> only: the client is modelled by that
  function, which may raise.
\<close>

type_synonym client = "string \<Rightarrow> error + json"

text \<open>One \<^verbatim>\<open>if path and node in workflow:\<close> block of the image helpers.\<close>

definition patch_image ::
  "bool \<Rightarrow> json \<Rightarrow> client option \<Rightarrow> string option \<Rightarrow> string \<Rightarrow> patch_result" where
  "patch_image verbose workflow cl image_path node_id =
     (if \<not> given image_path then ([], Inr workflow)
      else
        (case contains node_id workflow of
           Inl e \<Rightarrow> ([], Inl e)
         | Inr False \<Rightarrow> ([], Inr workflow)
         | Inr True \<Rightarrow>
             (case cl of
                Some upload \<Rightarrow>
                  (case upload (the image_path) of
                     Inl e \<Rightarrow> ([], Inl e)
                   | Inr filename \<Rightarrow>
                       (case assign_input workflow node_id ''image'' filename of
                          Inl e \<Rightarrow> ([], Inl e)
                        | Inr w \<Rightarrow>
                            (if verbose
                             then [[Lit ''Updated workflow node '', Lit node_id,
                                    Lit '' with uploaded image: '', Val filename]]
                             else [], Inr w)))
              | None \<Rightarrow>
                  (case assign_input workflow node_id ''image''
                          (JStr (basename (the image_path))) of
                     Inl e \<Rightarrow> ([], Inl e)
                   | Inr w \<Rightarrow>
                       (if verbose
                        then [[Lit ''Updated workflow node '', Lit node_id,
                               Lit '' with image: '', Lit (basename (the image_path))]]
                        else [], Inr w)))))"

text \<open>\<^verbatim>\<open>update_workflow_image\<close> of \<^verbatim>\<open>openpose-workflow.py\<close>.\<close>

definition update_workflow_image ::
  "json \<Rightarrow> client option \<Rightarrow> string option \<Rightarrow> string \<Rightarrow> patch_result" where
  "update_workflow_image workflow cl image_path node_id =
     patch_image True workflow cl image_path node_id"

text \<open>
  \<^verbatim>\<open>update_workflow_images\<close> of \<^verbatim>\<open>qwen-mutli-workflow.py\<close>: the same block three times,
  for the nodes 78, 106 and 108, without the printed line.
\<close>

definition update_workflow_images ::
  "json \<Rightarrow> client option \<Rightarrow> string option \<Rightarrow> string option \<Rightarrow> string option
     \<Rightarrow> patch_result" where
  "update_workflow_images workflow cl image1_path image2_path image3_path =
     (case patch_image False workflow cl image1_path ''78'' of
        (out, Inl e) \<Rightarrow> (out, Inl e)
      | (out, Inr w1) \<Rightarrow>
          (case patch_image False w1 cl image2_path ''106'' of
             (out, Inl e) \<Rightarrow> (out, Inl e)
           | (out, Inr w2) \<Rightarrow> patch_image False w2 cl image3_path ''108''))"

definition update_workflow_prompt :: "json \<Rightarrow> string \<Rightarrow> patch_result" where
  "update_workflow_prompt workflow prompt =
     (case contains ''111'' workflow of
        Inl e \<Rightarrow> ([], Inl e)
      | Inr False \<Rightarrow> ([], Inr workflow)
      | Inr True \<Rightarrow> ([], assign_input workflow ''111'' ''prompt'' (JStr prompt)))"

definition update_workflow_lora :: "json \<Rightarrow> string option \<Rightarrow> string \<Rightarrow> patch_result" where
  "update_workflow_lora workflow lora_name node_id =
     (if \<not> given lora_name then ([], Inr workflow)
      else
        (case contains node_id workflow of
           Inl e \<Rightarrow> ([], Inl e)
         | Inr False \<Rightarrow> ([], Inr workflow)
         | Inr True \<Rightarrow>
             (case has_input workflow node_id ''lora_name'' of
                Inl e \<Rightarrow> ([], Inl e)
              | Inr False \<Rightarrow> ([], Inr workflow)
              | Inr True \<Rightarrow>
                  (case assign_input workflow node_id ''lora_name''
                          (JStr (the lora_name)) of
                     Inl e \<Rightarrow> ([], Inl e)
                   | Inr w \<Rightarrow>
                       ([[Lit ''Updated LoRA name in node '', Lit node_id, Lit '' to: '',
                          Lit (the lora_name)]], Inr w)))))"

text \<open>
  \<^verbatim>\<open>update_workflow_seed\<close>. \<open>random_seed\<close> is what \<^verbatim>\<open>random.randint(0, 2**32 - 1)\<close> returns
  when it is called, that is, when no seed is given.
\<close>

definition update_workflow_seed ::
  "int \<Rightarrow> json \<Rightarrow> int option \<Rightarrow> string \<Rightarrow> patch_result" where
  "update_workflow_seed random_seed workflow seed node_id =
     (case seed of
        Some v \<Rightarrow>
          (case contains node_id workflow of
             Inl e \<Rightarrow> ([], Inl e)
           | Inr False \<Rightarrow> ([], Inr workflow)
           | Inr True \<Rightarrow>
               (case has_input workflow node_id ''seed'' of
                  Inl e \<Rightarrow> ([], Inl e)
                | Inr False \<Rightarrow> ([], Inr workflow)
                | Inr True \<Rightarrow>
                    (case assign_input workflow node_id ''seed'' (JInt v) of
                       Inl e \<Rightarrow> ([], Inl e)
                     | Inr w \<Rightarrow>
                         ([[Lit ''Updated seed in node '', Lit node_id, Lit '' to: '',
                            Val (JInt v)]], Inr w))))
      | None \<Rightarrow>
          (case contains node_id workflow of
             Inl e \<Rightarrow> ([], Inl e)
           | Inr False \<Rightarrow> ([], Inr workflow)
           | Inr True \<Rightarrow>
               (case has_input workflow node_id ''seed'' of
                  Inl e \<Rightarrow> ([], Inl e)
                | Inr False \<Rightarrow> ([], Inr workflow)
                | Inr True \<Rightarrow>
                    (case assign_input workflow node_id ''seed'' (JInt random_seed) of
                       Inl e \<Rightarrow> ([], Inl e)
                     | Inr w \<Rightarrow>
                         ([[Lit ''Using random seed in node '', Lit node_id, Lit '': '',
                            Val (JInt random_seed)]], Inr w)))))"

text \<open>Job definitions used as concrete inputs. The first has the nodes 3 and 89 only.\<close>

definition example_workflow :: json where
  "example_workflow =
     JObj [(''3'', JObj [(''class_type'', JStr ''KSampler'')]),
           (''89'', JObj [(''inputs'', JObj [(''strength'', JInt 1)])])]"



section \<open>Properties of the wait loop\<close>

text \<open>The equations that evaluate the model on a concrete run.\<close>

lemmas eval_defs =
  wait_for_completion_def after_loop_def loop_entry_def handle_frame_def process_message_def
  on_executing_def on_progress_def on_executed_def key_eq_def Let_def
  executing_event_def progress_event_def executed_event_def image_ref_def example_inbox_def

lemma wait_for_completion_loop:
  "wait_for_completion True clock inbox out0 pid timeout =
     after_loop clock timeout (clock 0)
       (wait_loop clock pid timeout (clock 0) inbox (loop_entry out0))"
  by (simp add: wait_for_completion_def loop_entry_def Let_def)

lemma wait_loop_self_ws:
  "wait_loop clock pid timeout t0 inbox st = (ex, st') \<Longrightarrow> self_ws st' = self_ws st"
  by (induction inbox arbitrary: st)
     (auto simp: Let_def split: if_splits recv_result.splits flow.splits)

lemma wait_loop_received:
  "wait_loop clock pid timeout t0 inbox st = (ex, st') \<Longrightarrow>
     received st \<le> received st' \<and> received st' - received st \<le> length inbox"
  by (induction inbox arbitrary: st)
     (fastforce simp: Let_def split: if_splits recv_result.splits flow.splits)+

lemma getitem_err: "getitem v k = Inl e \<Longrightarrow> e = KeyError \<or> e = TypeError"
  by (cases v) (auto split: option.splits)

lemma contains_err: "contains k v = Inl e \<Longrightarrow> e = TypeError"
  by (cases v) auto

lemma py_iter_err: "py_iter v = Inl e \<Longrightarrow> e = TypeError"
  by (cases v) auto

lemma py_get_err: "py_get v k d = Inl e \<Longrightarrow> e = AttributeError"
  by (cases v) (auto split: option.splits)

lemma store_images_err: "store_images data xs d = Inl e \<Longrightarrow> e = KeyError \<or> e = TypeError"
  by (induction xs arbitrary: d) (auto split: sum.splits if_splits dest: getitem_err)

lemma on_executing_err: "on_executing pid m vs = Raise e \<Longrightarrow> e = KeyError \<or> e = TypeError"
  by (auto simp: on_executing_def split: sum.splits if_splits dest: getitem_err)

lemma on_progress_err:
  "on_progress m vs = Raise e \<Longrightarrow> e = KeyError \<or> e = TypeError \<or> e = AttributeError"
  by (auto simp: on_progress_def split: sum.splits dest: getitem_err py_get_err)

lemma on_executed_err: "on_executed m vs = Raise e \<Longrightarrow> e = KeyError \<or> e = TypeError"
  by (auto simp: on_executed_def split: sum.splits bool.splits
           dest: getitem_err contains_err py_iter_err store_images_err)

lemma handle_frame_err:
  "handle_frame pid fr vs = Raise e \<Longrightarrow>
     e = KeyError \<or> e = TypeError \<or> e = AttributeError \<or> e = JSONDecodeError"
  by (auto simp: handle_frame_def process_message_def
           split: frame.splits option.splits sum.splits if_splits
           dest: getitem_err on_executing_err on_progress_err on_executed_err)

lemma wait_loop_err:
  "wait_loop clock pid timeout t0 inbox st = (Raised e, st') \<Longrightarrow> e \<noteq> TimeoutError"
  by (induction inbox arbitrary: st)
     (auto simp: Let_def split: if_splits recv_result.splits flow.splits dest: handle_frame_err)

subsection \<open>Release of the notification channel\<close>

text \<open>
  The two ways out of the loop itself do release the connection: whenever
  \<^verbatim>\<open>wait_for_completion\<close> returns its mapping or raises TimeoutError, the connection has
  been closed and \<^verbatim>\<open>self.ws\<close> cleared before the call ends.
\<close>

lemma wait_for_completion_closes_on_loop_exit:
  assumes "wait_for_completion c clock inbox out0 pid timeout = (res, st)"
    and "res = Returns d \<or> res = Raises TimeoutError"
  shows "\<not> conn_open st \<and> \<not> self_ws st"
proof (cases c)
  case False
  with assms show ?thesis by (auto simp: wait_for_completion_def)
next
  case True
  obtain ex st1 where L:
    "wait_loop clock pid timeout (clock 0) inbox (loop_entry out0) = (ex, st1)"
    by (cases "wait_loop clock pid timeout (clock 0) inbox (loop_entry out0)")
  from assms True L have A: "after_loop clock timeout (clock 0) (ex, st1) = (res, st)"
    by (simp add: wait_for_completion_loop)
  show ?thesis
  proof (cases ex)
    case (Raised e)
    with L have "e \<noteq> TimeoutError" by (auto dest: wait_loop_err)
    with A Raised assms(2) show ?thesis by (auto simp: after_loop_def)
  qed (use A assms(2) in \<open>auto simp: after_loop_def Let_def split: if_splits\<close>)
qed

text \<open>
  An exception from inside the loop is another matter. The loop never touches the
  connection: after an exception \<^verbatim>\<open>self.ws\<close> still holds it, and it is still open unless
  the exception came from \<^verbatim>\<open>recv\<close> on a lost connection, which the library had shut down.
\<close>

lemma wait_loop_exception_keeps_connection:
  "wait_loop clock pid timeout t0 inbox st = (Raised e, st') \<Longrightarrow>
     conn_open st' = conn_open st \<or>
     (received st < received st' \<and>
      inbox ! (received st' - received st - 1) = Recv_raises True)"
proof (induction inbox arbitrary: st)
  case Nil
  then show ?case by (auto split: if_splits)
next
  case (Cons r inbox)
  show ?case
  proof (cases "clock (clock_reads st) - t0 < timeout")
    case False
    with Cons.prems show ?thesis by auto
  next
    case True
    show ?thesis
    proof (cases r)
      case (Recv_raises lost)
      with True Cons.prems have "received st' = Suc (received st)"
        and "conn_open st' = (conn_open st \<and> \<not> lost)"
        by (auto simp: Let_def)
      with Recv_raises show ?thesis by (cases lost) auto
    next
      case (Recv fr)
      show ?thesis
      proof (cases "handle_frame pid fr (vars st)")
        case (Next vs)
        let ?st2 = "st\<lparr>clock_reads := Suc (clock_reads st), received := Suc (received st),
                        vars := vs\<rparr>"
        from True Recv Next Cons.prems
        have rec: "wait_loop clock pid timeout t0 inbox ?st2 = (Raised e, st')"
          by (simp add: Let_def)
        have le: "Suc (received st) \<le> received st'"
          using wait_loop_received[OF rec] by simp
        from Cons.IH[OF rec]
        have "conn_open st' = conn_open st \<or>
              (Suc (received st) < received st' \<and>
               inbox ! (received st' - Suc (received st) - 1) = Recv_raises True)"
          by simp
        then show ?thesis
        proof
          assume "conn_open st' = conn_open st"
          then show ?thesis by simp
        next
          assume a: "Suc (received st) < received st' \<and>
               inbox ! (received st' - Suc (received st) - 1) = Recv_raises True"
          then have "received st' - received st - 1
                       = Suc (received st' - Suc (received st) - 1)" by arith
          with a show ?thesis by simp
        qed
      qed (use True Recv Cons.prems in \<open>auto simp: Let_def\<close>)
    qed
  qed
qed

lemma wait_for_completion_exception_skips_close:
  assumes "wait_for_completion True clock inbox out0 pid timeout = (Raises e, st)"
    and "e \<noteq> TimeoutError"
  shows "self_ws st \<and>
         (conn_open st \<or>
          (0 < received st \<and> inbox ! (received st - 1) = Recv_raises True))"
proof -
  obtain ex st1 where L:
    "wait_loop clock pid timeout (clock 0) inbox (loop_entry out0) = (ex, st1)"
    by (cases "wait_loop clock pid timeout (clock 0) inbox (loop_entry out0)")
  with assms(1) have A: "after_loop clock timeout (clock 0) (ex, st1) = (Raises e, st)"
    by (simp add: wait_for_completion_loop)
  with assms(2) have ex: "ex = Raised e" and st: "st = st1"
    by (cases ex; auto simp: after_loop_def Let_def split: if_splits)+
  have e0: "received (loop_entry out0) = 0" "conn_open (loop_entry out0)"
    "self_ws (loop_entry out0)"
    by (simp_all add: loop_entry_def)
  from wait_loop_self_ws[OF L] e0 st have "self_ws st" by simp
  moreover from wait_loop_exception_keeps_connection[OF L[unfolded ex]] e0 st
  have "conn_open st \<or> (0 < received st \<and> inbox ! (received st - 1) = Recv_raises True)"
    by auto
  ultimately show ?thesis by blast
qed

text \<open>
  Claim C1 fails on the code. A text frame that is not JSON raises from \<^verbatim>\<open>json.loads\<close>, a
  \<^verbatim>\<open>progress\<close> message without \<^verbatim>\<open>value\<close> raises a KeyError while it is processed, and
  \<^verbatim>\<open>recv\<close> can raise on a connection that is still up: in each case the exception leaves
  the call with the connection open and \<^verbatim>\<open>self.ws\<close> still set, whereas the timeout path
  of the same function closes before it raises.
\<close>

theorem wait_for_completion_open_after_failure:
  "wait_for_completion True (\<lambda>n. real n * 50) [Recv (Text None)] [] ''job'' 300
     = (Raises JSONDecodeError, \<lparr>conn_open = True, self_ws = True, clock_reads = 2,
                                  received = 1, vars = ([], [])\<rparr>)
   \<and> wait_for_completion True (\<lambda>n. real n * 50)
       [Recv (Text (Some (JObj [(''type'', JStr ''progress''), (''data'', JObj [])])))]
       [] ''job'' 300
     = (Raises KeyError, \<lparr>conn_open = True, self_ws = True, clock_reads = 2,
                           received = 1, vars = ([], [])\<rparr>)
   \<and> wait_for_completion True (\<lambda>n. real n * 50) [Recv_raises False] [] ''job'' 300
     = (Raises WebSocketError, \<lparr>conn_open = True, self_ws = True, clock_reads = 2,
                                 received = 1, vars = ([], [])\<rparr>)
   \<and> wait_for_completion True (\<lambda>n. real n * 300) [] [] ''job'' 300
     = (Raises TimeoutError, \<lparr>conn_open = False, self_ws = False, clock_reads = 3,
                               received = 0, vars = ([], [])\<rparr>)"
  by (simp add: eval_defs)

subsection \<open>When the loop ends\<close>

lemma handle_frame_break:
  "handle_frame pid fr vs = Break_loop \<longleftrightarrow> spec_completion_signal pid (Recv fr)"
proof (cases fr)
  case Binary
  then show ?thesis by (simp add: handle_frame_def spec_completion_signal_def)
next
  case (Text mo)
  show ?thesis
  proof (cases mo)
    case None
    with Text show ?thesis by (simp add: handle_frame_def spec_completion_signal_def)
  next
    case (Some m)
    show ?thesis
    proof (cases m)
      case (JObj kvs)
      have np: "on_progress m vs \<noteq> Break_loop"
        by (auto simp: on_progress_def split: sum.splits)
      have ne: "on_executed m vs \<noteq> Break_loop"
        by (auto simp: on_executed_def split: sum.splits bool.splits)
      have ex: "on_executing pid m vs = Break_loop \<longleftrightarrow>
          (case map_of kvs ''data'' of
             Some (JObj d) \<Rightarrow>
               map_of d ''node'' = Some JNull \<and> map_of d ''prompt_id'' = Some (JStr pid)
           | _ \<Rightarrow> False)"
        using JObj
        by (auto simp: on_executing_def split: sum.splits option.splits json.splits if_splits
                 elim!: getitem.elims)
      show ?thesis using Text Some JObj np ne ex
        by (auto simp: handle_frame_def process_message_def spec_completion_signal_def
                 split: option.splits)
    qed (use Text Some in \<open>simp_all add: handle_frame_def process_message_def spec_completion_signal_def\<close>)
  qed
qed

lemma wait_loop_break_aux:
  "wait_loop clock pid timeout t0 inbox st = (ex, st') \<Longrightarrow>
     (ex = Broke \<longrightarrow> received st < received st' \<and>
        spec_completion_signal pid (inbox ! (received st' - received st - 1))) \<and>
     (\<forall>k. k < received st' - received st \<longrightarrow> spec_completion_signal pid (inbox ! k) \<longrightarrow>
        ex = Broke \<and> Suc k = received st' - received st)"
proof (induction inbox arbitrary: st)
  case Nil
  then have "ex \<noteq> Broke" and "received st' = received st"
    by (auto split: if_splits)
  then show ?case by simp
next
  case (Cons r inbox)
  let ?st1 = "st\<lparr>clock_reads := Suc (clock_reads st), received := Suc (received st)\<rparr>"
  have v1: "vars ?st1 = vars st" by simp
  show ?case
  proof (cases "clock (clock_reads st) - t0 < timeout")
    case False
    with Cons.prems have "ex \<noteq> Broke" and "received st' = received st"
      by auto
    then show ?thesis by simp
  next
    case True
    show ?thesis
    proof (cases r)
      case (Recv_raises lost)
      with True Cons.prems have "ex \<noteq> Broke" and "received st' = Suc (received st)"
        by (auto simp: Let_def)
      moreover have "\<not> spec_completion_signal pid r"
        using Recv_raises by (simp add: spec_completion_signal_def)
      ultimately show ?thesis by simp
    next
      case (Recv fr)
      show ?thesis
      proof (cases "handle_frame pid fr (vars st)")
        case (Raise e)
        then have "\<not> spec_completion_signal pid r"
          using handle_frame_break[of pid fr "vars st"] Recv by simp
        moreover from True Recv Raise Cons.prems
        have "ex \<noteq> Broke" and "received st' = Suc (received st)"
          by (auto simp: Let_def)
        ultimately show ?thesis by simp
      next
        case Break_loop
        then have "spec_completion_signal pid r"
          using handle_frame_break[of pid fr "vars st"] Recv by simp
        moreover from True Recv Break_loop Cons.prems
        have "ex = Broke" and "received st' = Suc (received st)"
          by (auto simp: Let_def)
        ultimately show ?thesis by simp
      next
        case (Next vs)
        then have ns: "\<not> spec_completion_signal pid r"
          using handle_frame_break[of pid fr "vars st"] Recv by simp
        from True Recv Next Cons.prems
        have rec: "wait_loop clock pid timeout t0 inbox (?st1\<lparr>vars := vs\<rparr>) = (ex, st')"
          by (simp add: Let_def)
        have r1: "received (?st1\<lparr>vars := vs\<rparr>) = Suc (received st)" by simp
        note ih = Cons.IH[OF rec, unfolded r1]
        have le: "Suc (received st) \<le> received st'"
          using wait_loop_received[OF rec] by simp
        define n where "n = received st' - Suc (received st)"
        have n: "received st' - received st = Suc n"
          using le by (simp add: n_def)
        note ih' = ih[folded n_def]
        have ih1: "0 < n \<and> spec_completion_signal pid (inbox ! (n - 1))" if "ex = Broke"
        proof -
          from ih' that have "Suc (received st) < received st'"
            and "spec_completion_signal pid (inbox ! (n - 1))"
            by blast+
          then show ?thesis by (simp add: n_def)
        qed
        have ih2: "ex = Broke \<and> Suc k = n"
          if "k < n" "spec_completion_signal pid (inbox ! k)" for k
          using ih' that by blast
        have A: "ex = Broke \<longrightarrow> received st < received st' \<and>
            spec_completion_signal pid ((r # inbox) ! (received st' - received st - 1))"
        proof
          assume b: "ex = Broke"
          from ih1[OF b] obtain m where m: "n = Suc m" and sg: "spec_completion_signal pid (inbox ! m)"
            by (cases n) auto
          show "received st < received st' \<and>
            spec_completion_signal pid ((r # inbox) ! (received st' - received st - 1))"
            using le n m sg by simp
        qed
        have B: "\<forall>k. k < received st' - received st \<longrightarrow>
            spec_completion_signal pid ((r # inbox) ! k) \<longrightarrow>
            ex = Broke \<and> Suc k = received st' - received st"
        proof (intro allI impI)
          fix k assume k: "k < received st' - received st"
            and s: "spec_completion_signal pid ((r # inbox) ! k)"
          show "ex = Broke \<and> Suc k = received st' - received st"
          proof (cases k)
            case 0
            with s ns show ?thesis by simp
          next
            case (Suc j)
            with k n have "j < n" by simp
            moreover from s Suc have "spec_completion_signal pid (inbox ! j)" by simp
            ultimately have "ex = Broke \<and> Suc j = n" by (rule ih2)
            with Suc n show ?thesis by simp
          qed
        qed
        from A B show ?thesis by (rule conjI)
      qed
    qed
  qed
qed

text \<open>
  How a run of frames that all pass is consumed: the loop goes through a prefix of such
  frames as long as its clock checks read less than \<open>timeout\<close>, and what happens next is
  decided by the frame or the check that follows.
\<close>

lemma wait_loop_prefix:
  assumes "m \<le> length inbox"
    and "\<forall>j<m. passes pid (inbox ! j)"
    and "\<forall>i. clock_reads st \<le> i \<and> i < clock_reads st + m \<longrightarrow> clock i - t0 < timeout"
  shows "\<exists>vs. wait_loop clock pid timeout t0 inbox st
           = wait_loop clock pid timeout t0 (drop m inbox)
               (st\<lparr>clock_reads := clock_reads st + m, received := received st + m,
                    vars := vs\<rparr>)"
  using assms
proof (induction m arbitrary: inbox st)
  case 0
  show ?case by (intro exI[of _ "vars st"]) simp
next
  case (Suc m)
  from Suc.prems(1) obtain r rest where inbox: "inbox = r # rest"
    by (cases inbox) auto
  from Suc.prems(2) have "passes pid (inbox ! 0)" by blast
  with inbox obtain fr where r: "r = Recv fr"
    and nx: "\<forall>vs. \<exists>vs'. handle_frame pid fr vs = Next vs'" by auto
  from nx obtain vs' where h: "handle_frame pid fr (vars st) = Next vs'" by blast
  from Suc.prems(3) have chk: "clock (clock_reads st) - t0 < timeout" by simp
  let ?st2 = "st\<lparr>clock_reads := Suc (clock_reads st), received := Suc (received st),
                  vars := vs'\<rparr>"
  have step: "wait_loop clock pid timeout t0 inbox st
                = wait_loop clock pid timeout t0 rest ?st2"
    using chk r h inbox by (simp add: Let_def)
  have p1: "m \<le> length rest" using Suc.prems(1) inbox by simp
  have p2: "\<forall>j<m. passes pid (rest ! j)"
  proof (intro allI impI)
    fix j assume "j < m"
    then have "Suc j < Suc m" by simp
    with Suc.prems(2) have "passes pid (inbox ! Suc j)" by blast
    with inbox show "passes pid (rest ! j)" by simp
  qed
  have p3: "\<forall>i. clock_reads ?st2 \<le> i \<and> i < clock_reads ?st2 + m \<longrightarrow> clock i - t0 < timeout"
    using Suc.prems(3) by simp
  from Suc.IH[OF p1 p2 p3] obtain vs where
    "wait_loop clock pid timeout t0 rest ?st2
       = wait_loop clock pid timeout t0 (drop m rest)
           (?st2\<lparr>clock_reads := clock_reads ?st2 + m, received := received ?st2 + m,
                  vars := vs\<rparr>)" by blast
  with step inbox show ?case by (intro exI[of _ vs]) simp
qed

lemma wait_loop_breaks_at_signal:
  assumes k: "k < length inbox"
    and sig: "spec_completion_signal pid (inbox ! k)"
    and pre: "\<forall>j<k. passes pid (inbox ! j)"
    and chk: "\<forall>i. clock_reads st \<le> i \<and> i \<le> clock_reads st + k \<longrightarrow> clock i - t0 < timeout"
  shows "\<exists>vs. wait_loop clock pid timeout t0 inbox st
           = (Broke, st\<lparr>clock_reads := clock_reads st + Suc k,
                          received := received st + Suc k, vars := vs\<rparr>)"
proof -
  from k have le: "k \<le> length inbox" by simp
  from chk have c': "\<forall>i. clock_reads st \<le> i \<and> i < clock_reads st + k \<longrightarrow> clock i - t0 < timeout"
    by simp
  from wait_loop_prefix[OF le pre c'] obtain vs where
    P: "wait_loop clock pid timeout t0 inbox st
          = wait_loop clock pid timeout t0 (drop k inbox)
              (st\<lparr>clock_reads := clock_reads st + k, received := received st + k,
                   vars := vs\<rparr>)" by blast
  from k have d: "drop k inbox = inbox ! k # drop (Suc k) inbox"
    by (simp add: Cons_nth_drop_Suc)
  from sig obtain fr where fr: "inbox ! k = Recv fr"
    by (cases "inbox ! k") (auto simp: spec_completion_signal_def)
  with sig have b: "handle_frame pid fr vs = Break_loop"
    by (simp add: handle_frame_break)
  from chk have "clock (clock_reads st + k) - t0 < timeout" by simp
  with P d fr b show ?thesis by (intro exI[of _ vs]) (simp add: Let_def)
qed


lemma wait_loop_blocks:
  assumes pre: "\<forall>r \<in> set inbox. passes pid r"
    and chk: "\<forall>i. clock_reads st \<le> i \<and> i \<le> clock_reads st + length inbox
                \<longrightarrow> clock i - t0 < timeout"
  shows "\<exists>vs. wait_loop clock pid timeout t0 inbox st
           = (Blocked, st\<lparr>clock_reads := Suc (clock_reads st + length inbox),
                            received := received st + length inbox, vars := vs\<rparr>)"
proof -
  from pre have p: "\<forall>j<length inbox. passes pid (inbox ! j)" by simp
  from chk have c': "\<forall>i. clock_reads st \<le> i \<and> i < clock_reads st + length inbox
                       \<longrightarrow> clock i - t0 < timeout" by simp
  from wait_loop_prefix[OF le_refl p c'] obtain vs where
    P: "wait_loop clock pid timeout t0 inbox st
          = wait_loop clock pid timeout t0 (drop (length inbox) inbox)
              (st\<lparr>clock_reads := clock_reads st + length inbox,
                   received := received st + length inbox, vars := vs\<rparr>)" by blast
  from chk have "clock (clock_reads st + length inbox) - t0 < timeout" by simp
  with P show ?thesis by (intro exI[of _ vs]) simp
qed




subsection \<open>Timeout\<close>

text \<open>
  Claim C9. When the loop has been left by \<^verbatim>\<open>break\<close>, so that a completion signal for the job
  was received, and the clock read after the loop shows that at least \<open>timeout\<close> has elapsed,
  \<^verbatim>\<open>wait_for_completion\<close> raises TimeoutError and the collected mapping is lost. The code
  after the loop does the same whether the loop ended by \<^verbatim>\<open>break\<close> or by its condition.
\<close>

theorem timeout_raised_after_break:
  assumes "wait_loop clock pid timeout (clock 0) inbox (loop_entry out0) = (Broke, st)"
    and "timeout \<le> clock (clock_reads st) - clock 0"
  shows "(\<exists>k < received st. spec_completion_signal pid (inbox ! k)) \<and>
         fst (wait_for_completion True clock inbox out0 pid timeout) = Raises TimeoutError \<and>
         after_loop clock timeout (clock 0) (Broke, st)
           = after_loop clock timeout (clock 0) (Deadline, st)"
proof -
  have r0: "received (loop_entry out0) = 0" by (simp add: loop_entry_def)
  from wait_loop_break_aux[OF assms(1)] r0
  have "0 < received st" and "spec_completion_signal pid (inbox ! (received st - 1))"
    by simp_all
  then have a: "\<exists>k < received st. spec_completion_signal pid (inbox ! k)"
    by (intro exI[of _ "received st - 1"]) simp
  have b: "fst (wait_for_completion True clock inbox out0 pid timeout) = Raises TimeoutError"
    using assms by (simp add: wait_for_completion_loop after_loop_def Let_def)
  have c: "after_loop clock timeout (clock 0) (Broke, st)
           = after_loop clock timeout (clock 0) (Deadline, st)"
    by (simp add: after_loop_def)
  from a b c show ?thesis by blast
qed

text \<open>
  Witness for C9: the completion signal is the only frame, checked at 200 of a budget of
  300 and followed by a clock reading of 400.
\<close>

theorem timeout_raised_after_break_witness:
  "spec_completion_signal ''job'' (executing_event JNull ''job'') \<and>
   fst (wait_for_completion True (\<lambda>n. real n * 200) [executing_event JNull ''job''] []
          ''job'' 300) = Raises TimeoutError"
proof -
  define S where "S = \<lparr>conn_open = True, self_ws = True, clock_reads = 2, received = 1,
                        vars = ([], [])\<rparr>"
  have h: "wait_loop (\<lambda>n. real n * 200) ''job'' 300 ((\<lambda>n. real n * 200) 0)
             [executing_event JNull ''job''] (loop_entry []) = (Broke, S)"
    by (simp add: eval_defs S_def)
  have l: "(300::real) \<le> (\<lambda>n. real n * 200) (clock_reads S) - (\<lambda>n. real n * 200) 0"
    by (simp add: S_def)
  have r: "received S = 1" by (simp add: S_def)
  from timeout_raised_after_break [OF h l, unfolded r]
  show ?thesis by simp
qed

lemma wait_loop_deadline:
  assumes "clock_reads st \<le> n" and "n \<le> clock_reads st + length inbox"
    and "timeout \<le> clock n - t0"
    and "\<forall>j < n - clock_reads st. passes pid (inbox ! j)"
  shows "\<exists>st'. wait_loop clock pid timeout t0 inbox st = (Deadline, st') \<and>
               0 < clock_reads st' \<and> timeout \<le> clock (clock_reads st' - 1) - t0 \<and>
               conn_open st' = conn_open st"
  using assms
proof (induction inbox arbitrary: st)
  case Nil
  then have "timeout \<le> clock (clock_reads st) - t0" by auto
  then show ?case by simp
next
  case (Cons r inbox)
  show ?case
  proof (cases "clock (clock_reads st) - t0 < timeout")
    case False
    then show ?thesis by simp
  next
    case True
    with Cons.prems(3) have "n \<noteq> clock_reads st" by auto
    with Cons.prems(1) have lt: "clock_reads st < n" by simp
    then have "0 < n - clock_reads st" by simp
    with Cons.prems(4) have "passes pid ((r # inbox) ! 0)" by blast
    then obtain fr where r: "r = Recv fr"
      and nx: "\<forall>vs. \<exists>vs'. handle_frame pid fr vs = Next vs'" by auto
    from nx obtain vs' where h: "handle_frame pid fr (vars st) = Next vs'" by blast
    let ?st2 = "st\<lparr>clock_reads := Suc (clock_reads st), received := Suc (received st),
                    vars := vs'\<rparr>"
    have step: "wait_loop clock pid timeout t0 (r # inbox) st
                  = wait_loop clock pid timeout t0 inbox ?st2"
      using True r h by (simp add: Let_def)
    have p1: "clock_reads ?st2 \<le> n" using lt by simp
    have p2: "n \<le> clock_reads ?st2 + length inbox" using Cons.prems(2) by simp
    have p4: "\<forall>j < n - clock_reads ?st2. passes pid (inbox ! j)"
    proof (intro allI impI)
      fix j assume "j < n - clock_reads ?st2"
      then have "Suc j < n - clock_reads st" by simp
      with Cons.prems(4) have "passes pid ((r # inbox) ! Suc j)" by blast
      then show "passes pid (inbox ! j)" by simp
    qed
    from Cons.IH[OF p1 p2 Cons.prems(3) p4] step show ?thesis by simp
  qed
qed

text \<open>
  Claim C4, as amended. If the clock never goes backwards and one of the loop's clock
  checks reads an elapsed time of at least \<open>timeout\<close>, every frame received before that
  check having passed, then \<^verbatim>\<open>wait_for_completion\<close> raises TimeoutError, with the
  connection closed and \<^verbatim>\<open>self.ws\<close> cleared before that; the frames that come after that
  check, a completion signal included, play no part. The same happens when the completion
  signal is received in time and the clock read after the loop shows an elapsed time of at
  least \<open>timeout\<close>. But when every frame passes and no check has read that much by the
  time the frames stop, \<^verbatim>\<open>recv\<close> never returns: no TimeoutError is raised and the
  connection stays open.
\<close>

theorem timeout_when_deadline_observed:
  "((\<forall>i j. i \<le> j \<longrightarrow> clock i \<le> clock j) \<and>
    (\<exists>n. 1 \<le> n \<and> n \<le> Suc (length inbox) \<and> timeout \<le> clock n - clock 0 \<and>
         (\<forall>r \<in> set (take (n - 1) inbox). passes pid r))
    \<longrightarrow> (\<exists>st. wait_for_completion True clock inbox out0 pid timeout
                  = (Raises TimeoutError, st) \<and> \<not> conn_open st \<and> \<not> self_ws st)) \<and>
   ((\<exists>k < length inbox. spec_completion_signal pid (inbox ! k) \<and>
         (\<forall>j<k. passes pid (inbox ! j)) \<and>
         (\<forall>i. 1 \<le> i \<and> i \<le> Suc k \<longrightarrow> clock i - clock 0 < timeout) \<and>
         timeout \<le> clock (Suc (Suc k)) - clock 0)
    \<longrightarrow> (\<exists>st. wait_for_completion True clock inbox out0 pid timeout
                  = (Raises TimeoutError, st) \<and> \<not> conn_open st \<and> \<not> self_ws st)) \<and>
   ((\<forall>r \<in> set inbox. passes pid r) \<and>
    (\<forall>i. 1 \<le> i \<and> i \<le> Suc (length inbox) \<longrightarrow> clock i - clock 0 < timeout)
    \<longrightarrow> (\<exists>st. wait_for_completion True clock inbox out0 pid timeout = (Blocks, st)
               \<and> conn_open st \<and> self_ws st))"
proof (intro conjI impI; (elim conjE exE)?)
  fix n
  assume mono: "\<forall>i j. i \<le> j \<longrightarrow> clock i \<le> clock j"
    and n1: "1 \<le> n" and n2: "n \<le> Suc (length inbox)"
    and late: "timeout \<le> clock n - clock 0"
    and pre: "\<forall>r \<in> set (take (n - 1) inbox). passes pid r"
  have c1: "clock_reads (loop_entry out0) = 1" by (simp add: loop_entry_def)
  have p1: "clock_reads (loop_entry out0) \<le> n" using n1 c1 by simp
  have p2: "n \<le> clock_reads (loop_entry out0) + length inbox" using n2 c1 by simp
  have p4: "\<forall>j < n - clock_reads (loop_entry out0). passes pid (inbox ! j)"
  proof (intro allI impI)
    fix j assume "j < n - clock_reads (loop_entry out0)"
    with c1 have j: "j < n - 1" by simp
    with n2 have "j < length (take (n - 1) inbox)" by simp
    then have "take (n - 1) inbox ! j \<in> set (take (n - 1) inbox)" by (rule nth_mem)
    with j have "inbox ! j \<in> set (take (n - 1) inbox)" by simp
    with pre show "passes pid (inbox ! j)" by blast
  qed
  from wait_loop_deadline[where clock = clock and ?t0.0 = "clock 0", OF p1 p2 late p4]
  obtain st' where L: "wait_loop clock pid timeout (clock 0) inbox (loop_entry out0)
                         = (Deadline, st')"
    and pos: "0 < clock_reads st'"
    and t: "timeout \<le> clock (clock_reads st' - 1) - clock 0" by blast
  from mono pos have "clock (clock_reads st' - 1) \<le> clock (clock_reads st')" by simp
  with t have "timeout \<le> clock (clock_reads st') - clock 0" by simp
  with L show "\<exists>st. wait_for_completion True clock inbox out0 pid timeout
                  = (Raises TimeoutError, st) \<and> \<not> conn_open st \<and> \<not> self_ws st"
    by (simp add: wait_for_completion_loop after_loop_def Let_def)
next
  fix k
  assume k: "k < length inbox" and sig: "spec_completion_signal pid (inbox ! k)"
    and pre: "\<forall>j<k. passes pid (inbox ! j)"
    and chk: "\<forall>i. 1 \<le> i \<and> i \<le> Suc k \<longrightarrow> clock i - clock 0 < timeout"
    and late: "timeout \<le> clock (Suc (Suc k)) - clock 0"
  have c1: "clock_reads (loop_entry out0) = 1" by (simp add: loop_entry_def)
  from chk have chk': "\<forall>i. clock_reads (loop_entry out0) \<le> i \<and>
      i \<le> clock_reads (loop_entry out0) + k \<longrightarrow> clock i - clock 0 < timeout"
    unfolding c1 by simp
  from wait_loop_breaks_at_signal[OF k sig pre chk'] obtain vs where
    L: "wait_loop clock pid timeout (clock 0) inbox (loop_entry out0)
          = (Broke, (loop_entry out0)\<lparr>clock_reads := clock_reads (loop_entry out0) + Suc k,
               received := received (loop_entry out0) + Suc k, vars := vs\<rparr>)" by blast
  with late c1 show "\<exists>st. wait_for_completion True clock inbox out0 pid timeout
                  = (Raises TimeoutError, st) \<and> \<not> conn_open st \<and> \<not> self_ws st"
    by (simp add: wait_for_completion_loop after_loop_def Let_def)
next
  assume pre: "\<forall>r \<in> set inbox. passes pid r"
    and chk: "\<forall>i. 1 \<le> i \<and> i \<le> Suc (length inbox) \<longrightarrow> clock i - clock 0 < timeout"
  have c1: "clock_reads (loop_entry out0) = 1" "conn_open (loop_entry out0)"
    "self_ws (loop_entry out0)" by (simp_all add: loop_entry_def)
  from chk have chk': "\<forall>i. clock_reads (loop_entry out0) \<le> i \<and>
      i \<le> clock_reads (loop_entry out0) + length inbox \<longrightarrow> clock i - clock 0 < timeout"
    unfolding c1 by simp
  from wait_loop_blocks[OF pre chk'] obtain vs where
    L: "wait_loop clock pid timeout (clock 0) inbox (loop_entry out0)
          = (Blocked, (loop_entry out0)\<lparr>
               clock_reads := Suc (clock_reads (loop_entry out0) + length inbox),
               received := received (loop_entry out0) + length inbox, vars := vs\<rparr>)" by blast
  with c1 show "\<exists>st. wait_for_completion True clock inbox out0 pid timeout = (Blocks, st)
               \<and> conn_open st \<and> self_ws st"
    by (simp add: wait_for_completion_loop after_loop_def Let_def)
qed

text \<open>
  Witness for C4. One progress message and then the completion signal, with a budget of
  300: when the checks read 200 and 400 the deadline is seen before the signal is read;
  when they read 100 and 200 the signal is read and the clock read after the loop reads
  300. Two frames that pass and then silence, with the clock far from the budget: the
  call blocks with the connection open.
\<close>

theorem timeout_when_deadline_observed_witness:
  "(\<exists>st. wait_for_completion True (\<lambda>n. real n * 200) example_late_completion [] ''job'' 300
          = (Raises TimeoutError, st) \<and> \<not> conn_open st \<and> \<not> self_ws st) \<and>
   (\<exists>st. wait_for_completion True (\<lambda>n. real n * 100) example_late_completion [] ''job'' 300
          = (Raises TimeoutError, st) \<and> \<not> conn_open st \<and> \<not> self_ws st) \<and>
   (\<exists>st. wait_for_completion True (\<lambda>n. real n) [progress_event 1 10, Recv Binary] [] ''job'' 300
          = (Blocks, st) \<and> conn_open st \<and> self_ws st)"
proof (intro conjI)
  note t1 = timeout_when_deadline_observed
    [where clock = "\<lambda>n. real n * 200" and inbox = example_late_completion
       and timeout = 300 and pid = "''job''" and ?out0.0 = "[]"]
  have m: "\<forall>i j. i \<le> j \<longrightarrow> (\<lambda>n. real n * 200) i \<le> (\<lambda>n. real n * 200) j" by simp
  have l: "\<exists>n. 1 \<le> n \<and> n \<le> Suc (length example_late_completion) \<and>
             (300::real) \<le> (\<lambda>n. real n * 200) n - (\<lambda>n. real n * 200) 0 \<and>
             (\<forall>r \<in> set (take (n - 1) example_late_completion). passes ''job'' r)"
    by (intro exI[of _ 2]) (simp add: example_late_completion_def eval_defs)
  from t1 m l
  show "\<exists>st. wait_for_completion True (\<lambda>n. real n * 200) example_late_completion [] ''job'' 300
          = (Raises TimeoutError, st) \<and> \<not> conn_open st \<and> \<not> self_ws st" by blast
next
  note t2 = timeout_when_deadline_observed
    [where clock = "\<lambda>n. real n * 100" and inbox = example_late_completion
       and timeout = 300 and pid = "''job''" and ?out0.0 = "[]"]
  have k: "\<exists>k < length example_late_completion.
             spec_completion_signal ''job'' (example_late_completion ! k) \<and>
             (\<forall>j<k. passes ''job'' (example_late_completion ! j)) \<and>
             (\<forall>i. 1 \<le> i \<and> i \<le> Suc k
                \<longrightarrow> (\<lambda>n. real n * 100) i - (\<lambda>n. real n * 100) 0 < 300) \<and>
             300 \<le> (\<lambda>n. real n * 100) (Suc (Suc k)) - (\<lambda>n. real n * 100) 0"
  proof (intro exI[of _ 1] conjI)
    show "\<forall>i. 1 \<le> i \<and> i \<le> Suc 1 \<longrightarrow> (\<lambda>n. real n * 100) i - (\<lambda>n. real n * 100) 0 < 300"
    proof (intro allI impI)
      fix i :: nat assume "1 \<le> i \<and> i \<le> Suc 1"
      then have "i = 1 \<or> i = 2" by arith
      then show "(\<lambda>n. real n * 100) i - (\<lambda>n. real n * 100) 0 < 300" by auto
    qed
  qed (simp_all add: example_late_completion_def spec_completion_signal_def eval_defs)
  from t2 k
  show "\<exists>st. wait_for_completion True (\<lambda>n. real n * 100) example_late_completion [] ''job'' 300
          = (Raises TimeoutError, st) \<and> \<not> conn_open st \<and> \<not> self_ws st" by blast
next
  note t3 = timeout_when_deadline_observed
    [where clock = "\<lambda>n. real n" and inbox = "[progress_event 1 10, Recv Binary]"
       and timeout = 300 and pid = "''job''" and ?out0.0 = "[]"]
  have p: "\<forall>r \<in> set [progress_event 1 10, Recv Binary]. passes ''job'' r"
    by (simp add: eval_defs)
  have c: "\<forall>i. 1 \<le> i \<and> i \<le> Suc (length [progress_event 1 10, Recv Binary])
             \<longrightarrow> (\<lambda>n. real n) i - (\<lambda>n. real n) 0 < 300" by simp
  from t3 p c
  show "\<exists>st. wait_for_completion True (\<lambda>n. real n) [progress_event 1 10, Recv Binary] [] ''job'' 300
          = (Blocks, st) \<and> conn_open st \<and> self_ws st" by blast
qed

text \<open>
  Claim C4 as stated fails: the deadline is only looked at between two receives. When no
  frame arrives at all, \<^verbatim>\<open>recv\<close> never returns, no TimeoutError is raised and the connection
  stays open.
\<close>

theorem no_timeout_without_frames:
  "wait_for_completion True (\<lambda>n. real n) [] [] ''job'' 300
     = (Blocks, \<lparr>conn_open = True, self_ws = True, clock_reads = 2, received = 0,
                 vars = ([], [])\<rparr>)"
  by (simp add: eval_defs)

subsection \<open>The mapping that is returned\<close>

lemma key_eq_refl [simp]: "key_eq a a"
  by (simp add: key_eq_def)

lemma key_eq_trans_iff: "key_eq a b \<Longrightarrow> key_eq a c = key_eq b c"
  by (simp add: key_eq_def)

lemma dict_lookup_dict_set:
  "dict_lookup (dict_set d n v) k = (if key_eq n k then Some v else dict_lookup d k)"
proof (induction d)
  case Nil
  show ?case by simp
next
  case (Cons e d)
  obtain k' v' where e: "e = (k', v')" by (cases e)
  show ?case
  proof (cases "key_eq k' n")
    case True
    then show ?thesis using e key_eq_trans_iff[OF True, of k] by simp
  next
    case False
    have "key_eq n k \<Longrightarrow> \<not> key_eq k' k"
      using False by (simp add: key_eq_def)
    with False e Cons.IH show ?thesis by auto
  qed
qed

lemma keys_dict_set:
  "set (map (key_norm \<circ> fst) (dict_set d n v)) = insert (key_norm n) (set (map (key_norm \<circ> fst) d))"
proof (induction d)
  case Nil
  show ?case by simp
next
  case (Cons e d)
  obtain k' v' where e: "e = (k', v')" by (cases e)
  show ?case
  proof (cases "key_eq k' n")
    case True
    then have "key_norm k' = key_norm n" by (simp add: key_eq_def)
    with True e show ?thesis by auto
  next
    case False
    with e Cons.IH show ?thesis by auto
  qed
qed

lemma getitem_contains: "getitem v k = Inr x \<Longrightarrow> contains k v = Inr True"
proof (cases v)
  case (JObj kvs)
  assume "getitem v k = Inr x"
  with JObj have "map_of kvs k = Some x" by (simp split: option.splits)
  then have "k \<in> dom (map_of kvs)" by blast
  then have "k \<in> fst ` set kvs" by (simp add: dom_map_of_conv_image_fst)
  with JObj show ?thesis by simp
qed simp_all

lemma distinct_dict_set:
  "distinct (map (key_norm \<circ> fst) d) \<Longrightarrow> distinct (map (key_norm \<circ> fst) (dict_set d n v))"
proof (induction d)
  case Nil
  show ?case by simp
next
  case (Cons e d)
  obtain k' v' where e: "e = (k', v')" by (cases e)
  show ?case
  proof (cases "key_eq k' n")
    case True
    with Cons.prems e show ?thesis by simp
  next
    case False
    have "key_norm k' \<notin> set (map (key_norm \<circ> fst) (dict_set d n v))"
      using Cons.prems e False unfolding keys_dict_set by (auto simp: key_eq_def)
    with Cons e False show ?thesis by simp
  qed
qed

lemma store_images_lookup:
  "store_images data xs d = Inr d' \<Longrightarrow> xs \<noteq> [] \<Longrightarrow>
     \<exists>n. getitem data ''node'' = Inr n \<and>
         dict_lookup d' k = (if key_eq n k then Some (last xs) else dict_lookup d k)"
proof (induction xs arbitrary: d)
  case Nil
  then show ?case by simp
next
  case (Cons x xs)
  from Cons.prems(1) obtain n where n: "getitem data ''node'' = Inr n" and h: "hashable n"
    and rec: "store_images data xs (dict_set d n x) = Inr d'"
    by (auto split: sum.splits if_splits)
  show ?case
  proof (cases "xs = []")
    case True
    with rec have "d' = dict_set d n x" by simp
    with n True show ?thesis by (simp add: dict_lookup_dict_set)
  next
    case False
    from Cons.IH[OF rec False] n
    have "dict_lookup d' k = (if key_eq n k then Some (last xs) else dict_lookup (dict_set d n x) k)"
      by auto
    with n False show ?thesis by (simp add: dict_lookup_dict_set)
  qed
qed

lemma store_images_distinct:
  "store_images data xs d = Inr d' \<Longrightarrow> distinct (map (key_norm \<circ> fst) d) \<Longrightarrow>
     distinct (map (key_norm \<circ> fst) d')"
  by (induction xs arbitrary: d) (auto split: sum.splits if_splits intro: distinct_dict_set)

lemma on_executed_lookup:
  assumes "on_executed m vs = Next vs'"
    and "getitem m ''type'' = Inr (JStr ''executed'')"
  shows "dict_lookup (snd vs') k =
           (case spec_executed_images (Recv (Text (Some m))) of
              Some (n, xs) \<Rightarrow> if key_eq n k then Some (last xs) else dict_lookup (snd vs) k
            | None \<Rightarrow> dict_lookup (snd vs) k)"
proof -
  from assms(1) obtain data where data: "getitem m ''data'' = Inr data"
    by (auto simp: on_executed_def split: sum.splits)
  then obtain dkv where dkv: "data = JObj dkv \<or> (\<forall>k. getitem data k = Inl TypeError)"
    by (cases data) auto
  show ?thesis
  proof (cases "getitem data ''output''")
    case (Inl e)
    have c: "contains ''output'' data = Inr False \<or> (\<exists>e. contains ''output'' data = Inl e)
        \<or> contains ''output'' data = Inr True"
      by (cases "contains ''output'' data") auto
    from assms(1) data Inl have "vs' = vs"
      by (auto simp: on_executed_def split: sum.splits bool.splits)
    moreover have "spec_executed_images (Recv (Text (Some m))) = None"
      using assms(2) data Inl by (simp add: spec_executed_images_def split: sum.splits)
    ultimately show ?thesis by simp
  next
    case (Inr out)
    then obtain dkv where d: "data = JObj dkv" by (cases data) auto
    from Inr have co: "contains ''output'' data = Inr True"
      by (rule getitem_contains)
    show ?thesis
    proof (cases "getitem out ''images''")
      case (Inl e)
      from assms(1) data Inr co Inl have "vs' = vs"
        by (auto simp: on_executed_def split: sum.splits bool.splits)
      moreover have "spec_executed_images (Recv (Text (Some m))) = None"
        using assms(2) data Inr Inl by (simp add: spec_executed_images_def split: sum.splits)
      ultimately show ?thesis by simp
    next
      case imgs: (Inr imgs)
      then obtain okv where o: "out = JObj okv" by (cases out) auto
      from imgs have ci: "contains ''images'' out = Inr True"
        by (rule getitem_contains)
      from assms(1) data Inr co imgs ci obtain xs where xs: "py_iter imgs = Inr xs"
        and st: "store_images data xs (snd vs) = Inr (snd vs')"
        by (auto simp: on_executed_def split: sum.splits)
      show ?thesis
      proof (cases xs)
        case Nil
        with st have "snd vs' = snd vs" by simp
        moreover have "spec_executed_images (Recv (Text (Some m))) = None"
          using assms(2) data Inr imgs xs Nil
          by (simp add: spec_executed_images_def split: sum.splits)
        ultimately show ?thesis by simp
      next
        case (Cons x rest)
        then have ne: "xs \<noteq> []" by simp
        from store_images_lookup[OF st ne, of k] obtain n where
          n: "getitem data ''node'' = Inr n"
          and l: "dict_lookup (snd vs') k =
                    (if key_eq n k then Some (last xs) else dict_lookup (snd vs) k)" by blast
        have "spec_executed_images (Recv (Text (Some m))) = Some (n, xs)"
          using assms(2) data Inr imgs xs Cons n
          by (simp add: spec_executed_images_def)
        with l show ?thesis by simp
      qed
    qed
  qed
qed


lemma on_executed_distinct:
  "on_executed m vs = Next vs' \<Longrightarrow> distinct (map (key_norm \<circ> fst) (snd vs)) \<Longrightarrow>
     distinct (map (key_norm \<circ> fst) (snd vs'))"
  by (auto simp: on_executed_def split: sum.splits bool.splits dest: store_images_distinct)

lemma on_executing_vars: "on_executing pid m vs = Next vs' \<Longrightarrow> vs' = vs"
  by (auto simp: on_executing_def split: sum.splits if_splits)

lemma on_progress_vars: "on_progress m vs = Next vs' \<Longrightarrow> snd vs' = snd vs"
  by (auto simp: on_progress_def split: sum.splits)

lemma spec_executed_images_other:
  "getitem m ''type'' \<noteq> Inr (JStr ''executed'') \<Longrightarrow>
     spec_executed_images (Recv (Text (Some m))) = None"
  by (simp add: spec_executed_images_def)

lemma handle_frame_lookup:
  assumes "handle_frame pid fr vs = Next vs'"
  shows "dict_lookup (snd vs') k =
           (case spec_executed_images (Recv fr) of
              Some (n, xs) \<Rightarrow> if key_eq n k then Some (last xs) else dict_lookup (snd vs) k
            | None \<Rightarrow> dict_lookup (snd vs) k)"
proof (cases fr)
  case Binary
  with assms show ?thesis by (simp add: handle_frame_def spec_executed_images_def)
next
  case (Text mo)
  with assms obtain m where m: "mo = Some m" and pm: "process_message pid m vs = Next vs'"
    by (cases mo) (auto simp: handle_frame_def)
  from pm obtain ty where ty: "getitem m ''type'' = Inr ty"
    by (auto simp: process_message_def split: sum.splits)
  show ?thesis
  proof (cases "ty = JStr ''executed''")
    case True
    with pm ty have "on_executed m vs = Next vs'" by (simp add: process_message_def)
    from on_executed_lookup[OF this, of k] ty True Text m show ?thesis by simp
  next
    case False
    with ty have none: "spec_executed_images (Recv (Text (Some m))) = None"
      by (simp add: spec_executed_images_other)
    from pm ty False have "snd vs' = snd vs"
      by (auto simp: process_message_def split: if_splits
               dest: on_executing_vars on_progress_vars)
    with none Text m show ?thesis by simp
  qed
qed

lemma handle_frame_distinct:
  "handle_frame pid fr vs = Next vs' \<Longrightarrow> distinct (map (key_norm \<circ> fst) (snd vs)) \<Longrightarrow>
     distinct (map (key_norm \<circ> fst) (snd vs'))"
  by (auto simp: handle_frame_def process_message_def
           split: frame.splits option.splits sum.splits if_splits
           dest: on_executing_vars on_progress_vars on_executed_distinct)

lemma completion_not_executed:
  "spec_completion_signal pid r \<Longrightarrow> spec_executed_images r = None"
  by (auto simp: spec_completion_signal_def spec_executed_images_def
           split: recv_result.splits frame.splits option.splits json.splits)

lemma wait_loop_lookup:
  "wait_loop clock pid timeout t0 inbox st = (ex, st') \<Longrightarrow> ex = Broke \<or> ex = Deadline \<Longrightarrow>
     dict_lookup (snd (vars st')) k =
       (case spec_last_image k (take (received st' - received st) inbox) of
          Some v \<Rightarrow> Some v
        | None \<Rightarrow> dict_lookup (snd (vars st)) k)"
proof (induction inbox arbitrary: st)
  case Nil
  then have "vars st' = vars st" by (auto split: if_splits)
  then show ?case by simp
next
  case (Cons r inbox)
  show ?case
  proof (cases "clock (clock_reads st) - t0 < timeout")
    case False
    with Cons.prems have "vars st' = vars st" and "received st' = received st" by auto
    then show ?thesis by simp
  next
    case True
    show ?thesis
    proof (cases r)
      case (Recv_raises lost)
      with True Cons.prems show ?thesis by (auto simp: Let_def)
    next
      case (Recv fr)
      show ?thesis
      proof (cases "handle_frame pid fr (vars st)")
        case (Raise e)
        with True Recv Cons.prems show ?thesis by (auto simp: Let_def)
      next
        case Break_loop
        then have "spec_completion_signal pid r"
          using handle_frame_break[of pid fr "vars st"] Recv by simp
        then have none: "spec_executed_images r = None" by (rule completion_not_executed)
        from True Recv Break_loop Cons.prems
        have "vars st' = vars st" and "received st' = Suc (received st)"
          by (auto simp: Let_def)
        with none show ?thesis by simp
      next
        case (Next vs)
        let ?st2 = "st\<lparr>clock_reads := Suc (clock_reads st), received := Suc (received st),
                        vars := vs\<rparr>"
        from True Recv Next Cons.prems(1)
        have rec: "wait_loop clock pid timeout t0 inbox ?st2 = (ex, st')"
          by (simp add: Let_def)
        have le: "Suc (received st) \<le> received st'"
          using wait_loop_received[OF rec] by simp
        define n where "n = received st' - Suc (received st)"
        have n: "received st' - received st = Suc n" using le by (simp add: n_def)
        from Cons.IH[OF rec Cons.prems(2)]
        have ih: "dict_lookup (snd (vars st')) k =
                    (case spec_last_image k (take n inbox) of
                       Some v \<Rightarrow> Some v | None \<Rightarrow> dict_lookup (snd vs) k)"
          by (simp add: n_def split: option.splits)
        from handle_frame_lookup[OF Next, of k] Recv
        have step: "dict_lookup (snd vs) k =
                      (case spec_executed_images r of
                         Some (m, xs) \<Rightarrow> if key_eq m k then Some (last xs)
                                         else dict_lookup (snd (vars st)) k
                       | None \<Rightarrow> dict_lookup (snd (vars st)) k)" by simp
        show ?thesis
          unfolding n using ih step
          by (simp split: option.splits prod.splits)
      qed
    qed
  qed
qed

lemma wait_loop_distinct:
  "wait_loop clock pid timeout t0 inbox st = (ex, st') \<Longrightarrow>
     distinct (map (key_norm \<circ> fst) (snd (vars st))) \<Longrightarrow>
     distinct (map (key_norm \<circ> fst) (snd (vars st')))"
proof (induction inbox arbitrary: st)
  case Nil
  then show ?case by (auto split: if_splits)
next
  case (Cons r inbox)
  show ?case
  proof (cases "clock (clock_reads st) - t0 < timeout")
    case False
    with Cons.prems show ?thesis by auto
  next
    case True
    show ?thesis
    proof (cases r)
      case (Recv_raises lost)
      with True Cons.prems show ?thesis by (auto simp: Let_def)
    next
      case (Recv fr)
      show ?thesis
      proof (cases "handle_frame pid fr (vars st)")
        case (Next vs)
        let ?st2 = "st\<lparr>clock_reads := Suc (clock_reads st), received := Suc (received st),
                        vars := vs\<rparr>"
        from True Recv Next Cons.prems(1)
        have rec: "wait_loop clock pid timeout t0 inbox ?st2 = (ex, st')"
          by (simp add: Let_def)
        from handle_frame_distinct[OF Next Cons.prems(2)]
        have "distinct (map (key_norm \<circ> fst) (snd (vars ?st2)))" by simp
        from Cons.IH[OF rec this] show ?thesis .
      qed (use True Recv Cons.prems in \<open>auto simp: Let_def\<close>)
    qed
  qed
qed

text \<open>
  Claim C2, as amended. When \<^verbatim>\<open>wait_for_completion\<close> returns, the mapping holds, for every
  node, the last image of the last \<^verbatim>\<open>executed\<close> event received for that node that carried at
  least one image, and nothing for a node without such an event; no node has two entries.
\<close>

theorem returned_mapping_keeps_last_image:
  assumes "wait_for_completion True clock inbox out0 pid timeout = (Returns d, st)"
  shows "(\<forall>k. dict_lookup d k = spec_last_image k (take (received st) inbox)) \<and>
         distinct (map (key_norm \<circ> fst) d)"
proof -
  obtain ex st1 where L:
    "wait_loop clock pid timeout (clock 0) inbox (loop_entry out0) = (ex, st1)"
    by (cases "wait_loop clock pid timeout (clock 0) inbox (loop_entry out0)")
  with assms have A: "after_loop clock timeout (clock 0) (ex, st1) = (Returns d, st)"
    by (simp add: wait_for_completion_loop)
  then have ex: "ex = Broke \<or> ex = Deadline"
    by (cases ex) (auto simp: after_loop_def Let_def split: if_splits)
  with A have d: "d = snd (vars st1)" and r: "received st = received st1"
    by (auto simp: after_loop_def Let_def split: if_splits)
  have e0: "received (loop_entry out0) = 0" "snd (vars (loop_entry out0)) = []"
    by (simp_all add: loop_entry_def)
  have "dict_lookup d k = spec_last_image k (take (received st) inbox)" for k
    using wait_loop_lookup[OF L ex, of k] d r e0 by (simp split: option.splits)
  moreover have "distinct (map (key_norm \<circ> fst) d)"
    using wait_loop_distinct[OF L] d e0 by simp
  ultimately show ?thesis by blast
qed

text \<open>
  Witness for C2: on the example run node 9 is mapped to its second image and node 5,
  which only appeared in an \<^verbatim>\<open>executing\<close> event, is absent.
\<close>

theorem returned_mapping_keeps_last_image_witness:
  "fst (wait_for_completion True (\<lambda>n. real n) example_inbox [] ''job'' 300)
     = Returns [(JStr ''9'', image_ref ''b.png'')] \<and>
   spec_last_image (JStr ''9'') (take 6 example_inbox) = Some (image_ref ''b.png'') \<and>
   spec_last_image (JStr ''5'') (take 6 example_inbox) = None"
proof -
  define S where "S = \<lparr>conn_open = False, self_ws = False, clock_reads = 8, received = 6,
     vars = ([[Lit ''Progress: '', Val (JInt 1), Lit ''/'', Val (JInt 10),
               Lit '' - '', Val (JStr [])]],
             [(JStr ''9'', image_ref ''b.png'')])\<rparr>"
  have h: "wait_for_completion True (\<lambda>n. real n) example_inbox [] ''job'' 300
             = (Returns [(JStr ''9'', image_ref ''b.png'')], S)"
    by (simp add: eval_defs S_def)
  have r: "received S = 6" by (simp add: S_def)
  from returned_mapping_keeps_last_image [OF h, unfolded r]
  have l: "dict_lookup [(JStr ''9'', image_ref ''b.png'')] k
             = spec_last_image k (take 6 example_inbox)" for k
    by blast
  have "spec_last_image (JStr ''9'') (take 6 example_inbox) = Some (image_ref ''b.png'')"
    using l[of "JStr ''9''"] by simp
  moreover have "spec_last_image (JStr ''5'') (take 6 example_inbox) = None"
    using l[of "JStr ''5''"] by (simp add: key_eq_def)
  ultimately show ?thesis using h by simp
qed

text \<open>
  Claim C2 as stated fails: with two image-carrying events for node 9 the mapping has one
  entry, and it is the image seen last, not the one seen first.
\<close>

theorem first_image_not_kept:
  "fst (wait_for_completion True (\<lambda>n. real n) example_two_events [] ''job'' 300)
     = Returns [(JStr ''9'', image_ref ''c.png'')] \<and>
   spec_first_image (JStr ''9'') example_two_events = Some (image_ref ''a.png'') \<and>
   image_ref ''a.png'' \<noteq> image_ref ''c.png'' \<and>
   length (filter (\<lambda>r. spec_executed_images r \<noteq> None) example_two_events) = 2"
  by (simp add: eval_defs example_two_events_def spec_executed_images_def)

section \<open>Properties of the patch helpers\<close>

subsection \<open>A node that is not there\<close>

lemma patch_image_absent:
  "node_id \<notin> fst ` set kvs \<Longrightarrow>
     patch_image verbose (JObj kvs) cl image_path node_id = ([], Inr (JObj kvs))"
  by (simp add: patch_image_def)

text \<open>
  Claim C5. When the job definition has no node with the targeted identifier, every patch
  helper returns the definition as it was, prints nothing and raises nothing: the image
  helper, the LoRA helper and the seed helper for the identifier they are given, the prompt
  helper for its fixed node 111, and the three-image helper when none of its nodes 78, 106
  and 108 is there.
\<close>

theorem patch_helpers_unchanged_when_node_absent:
  "(node_id \<notin> fst ` set kvs \<longrightarrow>
      update_workflow_image (JObj kvs) cl image_path node_id = ([], Inr (JObj kvs)) \<and>
      update_workflow_lora (JObj kvs) lora_name node_id = ([], Inr (JObj kvs)) \<and>
      update_workflow_seed random_seed (JObj kvs) seed node_id = ([], Inr (JObj kvs))) \<and>
   (''111'' \<notin> fst ` set kvs \<longrightarrow>
      update_workflow_prompt (JObj kvs) prompt = ([], Inr (JObj kvs))) \<and>
   (''78'' \<notin> fst ` set kvs \<and> ''106'' \<notin> fst ` set kvs \<and> ''108'' \<notin> fst ` set kvs \<longrightarrow>
      update_workflow_images (JObj kvs) cl image1_path image2_path image3_path
        = ([], Inr (JObj kvs)))"
proof (intro conjI impI)
  assume a: "node_id \<notin> fst ` set kvs"
  then show "update_workflow_image (JObj kvs) cl image_path node_id = ([], Inr (JObj kvs))"
    by (simp add: update_workflow_image_def patch_image_absent)
  from a show "update_workflow_lora (JObj kvs) lora_name node_id = ([], Inr (JObj kvs))"
    by (simp add: update_workflow_lora_def)
  from a show "update_workflow_seed random_seed (JObj kvs) seed node_id = ([], Inr (JObj kvs))"
    by (simp add: update_workflow_seed_def split: option.splits)
next
  assume "''111'' \<notin> fst ` set kvs"
  then show "update_workflow_prompt (JObj kvs) prompt = ([], Inr (JObj kvs))"
    by (simp add: update_workflow_prompt_def)
next
  assume "''78'' \<notin> fst ` set kvs \<and> ''106'' \<notin> fst ` set kvs \<and> ''108'' \<notin> fst ` set kvs"
  then show "update_workflow_images (JObj kvs) cl image1_path image2_path image3_path
        = ([], Inr (JObj kvs))"
    by (simp add: update_workflow_images_def patch_image_absent)
qed

text \<open>
  Witness for C5: a definition with the nodes 3 and 89 only, patched at node 1, at node 111
  and at the nodes 78, 106 and 108, with every optional argument given.
\<close>

theorem patch_helpers_unchanged_when_node_absent_witness:
  "update_workflow_image example_workflow (Some (\<lambda>p. Inr (JStr ''up.png''))) (Some ''a/b.png'') ''1''
     = ([], Inr example_workflow) \<and>
   update_workflow_lora example_workflow (Some ''style.safetensors'') ''1''
     = ([], Inr example_workflow) \<and>
   update_workflow_seed 7 example_workflow (Some 42) ''1'' = ([], Inr example_workflow) \<and>
   update_workflow_seed 7 example_workflow None ''1'' = ([], Inr example_workflow) \<and>
   update_workflow_prompt example_workflow ''a cat'' = ([], Inr example_workflow) \<and>
   update_workflow_images example_workflow None (Some ''x.png'') (Some ''y.png'') (Some ''z.png'')
     = ([], Inr example_workflow)"
proof -
  let ?kvs = "[(''3'', JObj [(''class_type'', JStr ''KSampler'')]),
               (''89'', JObj [(''inputs'', JObj [(''strength'', JInt 1)])])]"
  have e: "example_workflow = JObj ?kvs" by (simp add: example_workflow_def)
  have a: "''1'' \<notin> fst ` set ?kvs" "''111'' \<notin> fst ` set ?kvs"
    "''78'' \<notin> fst ` set ?kvs \<and> ''106'' \<notin> fst ` set ?kvs \<and> ''108'' \<notin> fst ` set ?kvs"
    by simp_all
  note t = patch_helpers_unchanged_when_node_absent [where kvs = ?kvs and node_id = "''1''"]
  from t [where cl = "Some (\<lambda>p. Inr (JStr ''up.png''))" and image_path = "Some ''a/b.png''"] a
  have 1: "update_workflow_image (JObj ?kvs) (Some (\<lambda>p. Inr (JStr ''up.png''))) (Some ''a/b.png'') ''1''
     = ([], Inr (JObj ?kvs))" by blast
  from t [where lora_name = "Some ''style.safetensors''"] a
  have 2: "update_workflow_lora (JObj ?kvs) (Some ''style.safetensors'') ''1''
     = ([], Inr (JObj ?kvs))" by blast
  from t [where random_seed = 7 and seed = "Some 42"] a
  have 3: "update_workflow_seed 7 (JObj ?kvs) (Some 42) ''1'' = ([], Inr (JObj ?kvs))" by blast
  from t [where random_seed = 7 and seed = None] a
  have 4: "update_workflow_seed 7 (JObj ?kvs) None ''1'' = ([], Inr (JObj ?kvs))" by blast
  from t [where prompt = "''a cat''"] a
  have 5: "update_workflow_prompt (JObj ?kvs) ''a cat'' = ([], Inr (JObj ?kvs))" by blast
  from t [where cl = None and ?image1_path.0 = "Some ''x.png''" and ?image2_path.0 = "Some ''y.png''"
            and ?image3_path.0 = "Some ''z.png''"] a
  have 6: "update_workflow_images (JObj ?kvs) None (Some ''x.png'') (Some ''y.png'') (Some ''z.png'')
     = ([], Inr (JObj ?kvs))" by blast
  from 1 2 3 4 5 6 show ?thesis unfolding e by blast
qed

subsection \<open>A node without its inputs\<close>











end
